theory Spec2Isabelle
  imports Main "HOL-Library.Multiset" "HOL-Library.Signed_Division"
begin

unbundle bit_operations_syntax

section \<open>scripts/gen\_chip\_bg.py: the bitmap generator\<close>

text \<open>
  The script writes an uncompressed 24-bit bitmap: a 54-byte header built with
  \<^verbatim>\<open>struct.pack\<close>, then one padded row of blue-green-red bytes for every
  \<^verbatim>\<open>y in range(height)\<close>. Python integers are unbounded, so they are \<open>int\<close>;
  a byte of the file is an \<open>int\<close> too, and the checks that Python makes when a value is
  packed or stored into a \<^verbatim>\<open>bytearray\<close> are branches of the model.
\<close>

subsection \<open>Exceptions\<close>

text \<open>
  The exceptions the function can raise: \<^verbatim>\<open>struct.error\<close> from
  \<^verbatim>\<open>struct.pack\<close>, \<^verbatim>\<open>ValueError\<close> from \<^verbatim>\<open>random.randint\<close> on an empty
  range, from \<^verbatim>\<open>bytearray\<close> on a negative size and from storing a value outside
  \<open>0..255\<close>, and \<^verbatim>\<open>IndexError\<close> from a store outside the row.
\<close>

datatype error = StructError | ValueError | IndexError

subsection \<open>The randomness source\<close>

text \<open>
  The module-level generator of \<^verbatim>\<open>random\<close> is global mutable state. It is modelled
  as a tape of raw naturals with a read position; \<^verbatim>\<open>random.randint(a, b)\<close> reads
  one cell, reduces it into the inclusive range \<open>[a, b]\<close> and advances the position.
  It raises \<^verbatim>\<open>ValueError\<close> when the range is empty.
\<close>

datatype rng = Rng (tape: "nat \<Rightarrow> nat") (pos: nat)

definition randint :: "int \<Rightarrow> int \<Rightarrow> rng \<Rightarrow> error + (int \<times> rng)" where
  "randint a b g =
     (if b < a then Inl ValueError
      else Inr (a + int (tape g (pos g) mod nat (b - a + 1)), Rng (tape g) (Suc (pos g))))"

subsection \<open>struct.pack\<close>

definition le_bytes :: "nat \<Rightarrow> int \<Rightarrow> int list" where
  "le_bytes k v = map (\<lambda>i. (v div 256 ^ i) mod 256) [0..<k]"

text \<open>\<^verbatim>\<open>struct.pack('<I', v)\<close>: unsigned 32-bit, little-endian.\<close>

definition pack_I :: "int \<Rightarrow> error + int list" where
  "pack_I v = (if 0 \<le> v \<and> v < 2 ^ 32 then Inr (le_bytes 4 v) else Inl StructError)"

text \<open>\<^verbatim>\<open>struct.pack('<i', v)\<close>: signed 32-bit, two's complement, little-endian.\<close>

definition pack_i :: "int \<Rightarrow> error + int list" where
  "pack_i v = (if - (2 ^ 31) \<le> v \<and> v < 2 ^ 31 then Inr (le_bytes 4 v) else Inl StructError)"

text \<open>\<^verbatim>\<open>struct.pack('<H', v)\<close>: unsigned 16-bit, little-endian.\<close>

definition pack_H :: "int \<Rightarrow> error + int list" where
  "pack_H v = (if 0 \<le> v \<and> v < 2 ^ 16 then Inr (le_bytes 2 v) else Inl StructError)"

subsection \<open>The file\<close>

text \<open>
  The file is the list of bytes written so far. The \<^verbatim>\<open>f.write\<close> calls of the header
  run in order; the first \<^verbatim>\<open>struct.pack\<close> that raises ends the function, and what
  was written before stays in the file, which the \<^verbatim>\<open>with\<close> block closes. Opening
  the file and writing to it are taken to succeed.
\<close>

fun write_all :: "(error + int list) list \<Rightarrow> int list \<Rightarrow> error option \<times> int list" where
  "write_all [] f = (None, f)"
| "write_all (Inl e # ps) f = (Some e, f)"
| "write_all (Inr bs # ps) f = write_all ps (f @ bs)"

definition row_size :: "int \<Rightarrow> int" where
  "row_size width = (width * 3 + 3) AND NOT 3"

definition header_fields :: "int \<Rightarrow> int \<Rightarrow> (error + int list) list" where
  "header_fields width height =
     (let pixel_data_size = row_size width * height;
          file_size = 14 + 40 + pixel_data_size;
          offset = 14 + 40
      in [Inr [0x42, 0x4D], pack_I file_size, pack_I 0, pack_I offset,
          pack_I 40, pack_i width, pack_i height, pack_H 1, pack_H 24, pack_I 0,
          pack_I pixel_data_size, pack_i 2835, pack_i 2835, pack_I 0, pack_I 0])"

subsection \<open>The blocks\<close>

text \<open>A block is the tuple \<^verbatim>\<open>(bx, by, bw, bh, color_boost)\<close>.\<close>

type_synonym block = "int \<times> int \<times> int \<times> int \<times> int"

definition sample_block :: "int \<Rightarrow> int \<Rightarrow> rng \<Rightarrow> error + (block \<times> rng)" where
  "sample_block width height g =
     (case randint 0 width g of Inl e \<Rightarrow> Inl e | Inr (bx, g1) \<Rightarrow>
     (case randint 0 height g1 of Inl e \<Rightarrow> Inl e | Inr (by, g2) \<Rightarrow>
     (case randint 50 200 g2 of Inl e \<Rightarrow> Inl e | Inr (bw, g3) \<Rightarrow>
     (case randint 50 200 g3 of Inl e \<Rightarrow> Inl e | Inr (bh, g4) \<Rightarrow>
     (case randint 20 60 g4 of Inl e \<Rightarrow> Inl e | Inr (color_boost, g5) \<Rightarrow>
      Inr ((bx, by, bw, bh, color_boost), g5))))))"

text \<open>The loop \<^verbatim>\<open>for _ in range(50)\<close>, by the number of rounds left.\<close>

fun sample_blocks :: "nat \<Rightarrow> int \<Rightarrow> int \<Rightarrow> block list \<Rightarrow> rng \<Rightarrow> error + (block list \<times> rng)" where
  "sample_blocks 0 width height blocks g = Inr (blocks, g)"
| "sample_blocks (Suc k) width height blocks g =
     (case sample_block width height g of Inl e \<Rightarrow> Inl e
      | Inr (blk, g') \<Rightarrow> sample_blocks k width height (blocks @ [blk]) g')"

subsection \<open>One pixel\<close>

text \<open>The body of the loop over the blocks, on the three running channel values.\<close>

fun add_block :: "int \<Rightarrow> int \<Rightarrow> int \<times> int \<times> int \<Rightarrow> block \<Rightarrow> int \<times> int \<times> int" where
  "add_block x y (r, g, b) (bx, by, bw, bh, boost) =
     (if bx \<le> x \<and> x < bx + bw \<and> by \<le> y \<and> y < by + bh then
        (r + boost div 2,
         (if x = bx \<or> x = bx + bw - 1 \<or> y = by \<or> y = by + bh - 1
          then g + boost + 40 else g + boost),
         b + boost div 2)
      else (r, g, b))"

text \<open>
  The channels of the pixel at \<open>(x, y)\<close> for the noise value \<open>n\<close>: base colour, noise,
  blocks, grid lines, clamp.
\<close>

definition pixel :: "block list \<Rightarrow> int \<Rightarrow> int \<Rightarrow> int \<Rightarrow> int \<times> int \<times> int" where
  "pixel blocks n x y =
     (case foldl (add_block x y) (20 + n, 30 + n, 25 + n) blocks of (r, g, b) \<Rightarrow>
     (case (if x mod 128 = 0 \<or> y mod 128 = 0 then (r + 30, g + 30, b + 30) else (r, g, b))
      of (r, g, b) \<Rightarrow> (min 255 r, min 255 g, min 255 b)))"

subsection \<open>Rows\<close>

text \<open>\<^verbatim>\<open>bytearray(n)\<close>: \<open>n\<close> zero bytes.\<close>

definition bytearray :: "int \<Rightarrow> error + int list" where
  "bytearray n = (if n < 0 then Inl ValueError else Inr (replicate (nat n) 0))"

text \<open>\<^verbatim>\<open>row[idx] = v\<close>: a negative index counts from the end.\<close>

definition store :: "int list \<Rightarrow> int \<Rightarrow> int \<Rightarrow> error + int list" where
  "store row idx v =
     (let len = int (length row); j = (if idx < 0 then len + idx else idx)
      in if j < 0 \<or> len \<le> j then Inl IndexError
         else if v < 0 \<or> 255 < v then Inl ValueError
         else Inr (row[nat j := v]))"

text \<open>\<^verbatim>\<open>range(n)\<close>: empty when \<open>n \<le> 0\<close>.\<close>

definition range_py :: "int \<Rightarrow> int list" where
  "range_py n = map int [0..<nat n]"

text \<open>The loop \<^verbatim>\<open>for x in range(width)\<close>, on the values of \<open>x\<close> still to come.\<close>

fun row_loop :: "block list \<Rightarrow> int \<Rightarrow> int list \<Rightarrow> int list \<Rightarrow> rng \<Rightarrow> error + (int list \<times> rng)" where
  "row_loop blocks y [] row g = Inr (row, g)"
| "row_loop blocks y (x # xs) row g =
     (case randint 0 10 g of Inl e \<Rightarrow> Inl e | Inr (n, g') \<Rightarrow>
     (case pixel blocks n x y of (r, gr, b) \<Rightarrow>
     (case store row (x * 3) b of Inl e \<Rightarrow> Inl e | Inr row1 \<Rightarrow>
     (case store row1 (x * 3 + 1) gr of Inl e \<Rightarrow> Inl e | Inr row2 \<Rightarrow>
     (case store row2 (x * 3 + 2) r of Inl e \<Rightarrow> Inl e | Inr row3 \<Rightarrow>
      row_loop blocks y xs row3 g')))))"

text \<open>
  The loop \<^verbatim>\<open>for y in range(height)\<close>, on the values of \<open>y\<close> still to come: a fresh
  row buffer, the pixels of the row, and the row appended to the file.
\<close>

fun rows_loop :: "block list \<Rightarrow> int \<Rightarrow> int list \<Rightarrow> int list \<Rightarrow> rng \<Rightarrow> error option \<times> int list" where
  "rows_loop blocks width [] f g = (None, f)"
| "rows_loop blocks width (y # ys) f g =
     (case bytearray (row_size width) of Inl e \<Rightarrow> (Some e, f) | Inr row \<Rightarrow>
     (case row_loop blocks y (range_py width) row g of Inl e \<Rightarrow> (Some e, f)
      | Inr (row', g') \<Rightarrow> rows_loop blocks width ys (f @ row') g'))"

subsection \<open>generate\_chip\_bg\<close>

text \<open>
  The result is the exception raised, if any, and the content of the file when the
  function ends.
\<close>

definition generate_chip_bg :: "int \<Rightarrow> int \<Rightarrow> rng \<Rightarrow> error option \<times> int list" where
  "generate_chip_bg width height g =
     (case write_all (header_fields width height) [] of
        (Some e, f) \<Rightarrow> (Some e, f)
      | (None, f) \<Rightarrow>
          (case sample_blocks 50 width height [] g of Inl e \<Rightarrow> (Some e, f)
           | Inr (blocks, g') \<Rightarrow> rows_loop blocks width (range_py height) f g'))"


section \<open>Closed forms of the loops\<close>

text \<open>
  The definitions of this section are not part of the script: they name what its loops
  compute, so that the lemmas below can state it.
\<close>

text \<open>The generator after \<open>k\<close> further draws.\<close>

definition skip :: "nat \<Rightarrow> rng \<Rightarrow> rng" where
  "skip k g = Rng (tape g) (pos g + k)"

text \<open>The value that the \<open>i\<close>-th next call of \<^verbatim>\<open>randint(a, b)\<close> returns.\<close>

definition draw :: "int \<Rightarrow> int \<Rightarrow> rng \<Rightarrow> nat \<Rightarrow> int" where
  "draw a b g i = a + int (tape g (pos g + i) mod nat (b - a + 1))"

text \<open>The \<open>i\<close>-th block that the sampling loop draws from the generator \<open>g\<close>.\<close>

definition nth_block :: "int \<Rightarrow> int \<Rightarrow> rng \<Rightarrow> nat \<Rightarrow> block" where
  "nth_block width height g i =
     (draw 0 width g (5 * i), draw 0 height g (5 * i + 1), draw 50 200 g (5 * i + 2),
      draw 50 200 g (5 * i + 3), draw 20 60 g (5 * i + 4))"

text \<open>The three bytes of a pixel in the order of the file.\<close>

fun bgr :: "int \<times> int \<times> int \<Rightarrow> int list" where
  "bgr (r, g, b) = [b, g, r]"

text \<open>The bytes of the pixels \<open>k, \<dots>, k + m - 1\<close> of row \<open>y\<close>.\<close>

definition pix_bytes :: "block list \<Rightarrow> int \<Rightarrow> rng \<Rightarrow> nat \<Rightarrow> nat \<Rightarrow> int list" where
  "pix_bytes blocks y g k m =
     concat (map (\<lambda>i. bgr (pixel blocks (draw 0 10 g i) (int (k + i)) y)) [0..<m])"

text \<open>A finished row: the pixels, then the zero padding up to the row size.\<close>

definition row_bytes :: "block list \<Rightarrow> int \<Rightarrow> int \<Rightarrow> rng \<Rightarrow> int list" where
  "row_bytes blocks width y g =
     pix_bytes blocks y g 0 (nat width) @ replicate (nat (row_size width) - 3 * nat width) 0"

text \<open>The 54 bytes of the two headers.\<close>

definition header_bytes :: "int \<Rightarrow> int \<Rightarrow> int list" where
  "header_bytes width height =
     [0x42, 0x4D] @ le_bytes 4 (14 + 40 + row_size width * height) @ le_bytes 4 0 @
     le_bytes 4 54 @ le_bytes 4 40 @ le_bytes 4 width @ le_bytes 4 height @ le_bytes 2 1 @
     le_bytes 2 24 @ le_bytes 4 0 @ le_bytes 4 (row_size width * height) @ le_bytes 4 2835 @
     le_bytes 4 2835 @ le_bytes 4 0 @ le_bytes 4 0"

text \<open>The list of the first \<open>k\<close> sampled blocks.\<close>

definition sampled :: "nat \<Rightarrow> int \<Rightarrow> int \<Rightarrow> rng \<Rightarrow> block list" where
  "sampled k width height g = map (nth_block width height g) [0..<k]"

text \<open>The pixel data of the file: the rows in the order of the loop over \<open>y\<close>.\<close>

definition image_bytes :: "int \<Rightarrow> int \<Rightarrow> rng \<Rightarrow> int list" where
  "image_bytes width height g =
     concat (map (\<lambda>i. row_bytes (sampled 50 width height g) width (int i) (skip (250 + i * nat width) g))
                 [0..<nat height])"

text \<open>The exception that ends a sequence of header writes, if any.\<close>

fun failure :: "(error + int list) list \<Rightarrow> error option" where
  "failure [] = None"
| "failure (Inl e # ps) = Some e"
| "failure (Inr bs # ps) = failure ps"

text \<open>The bytes that a sequence of header writes puts into the file.\<close>

fun payload :: "(error + int list) list \<Rightarrow> int list" where
  "payload [] = []"
| "payload (Inl e # ps) = []"
| "payload (Inr bs # ps) = bs @ payload ps"

text \<open>A tape whose cells all hold the same value.\<close>

definition const_tape :: "nat \<Rightarrow> nat \<Rightarrow> nat" where
  "const_tape c i = c"

text \<open>Bytes read as a little-endian unsigned integer.\<close>

definition le_uint :: "int list \<Rightarrow> int" where
  "le_uint bs = foldr (\<lambda>b v. b + 256 * v) bs 0"

text \<open>Four bytes read as a little-endian signed 32-bit integer (two's complement).\<close>

definition le_sint32 :: "int list \<Rightarrow> int" where
  "le_sint32 bs = (if le_uint bs < 2 ^ 31 then le_uint bs else le_uint bs - 2 ^ 32)"

text \<open>
  The layers of a pixel in the words of the specification: whether the rectangle of a
  block contains \<open>(x, y)\<close>, whether \<open>(x, y)\<close> is on its boundary, the boost of the grid
  lines, and the three channel sums before the clamp. The division is the truncating one.
\<close>

definition covers :: "block \<Rightarrow> int \<Rightarrow> int \<Rightarrow> bool" where
  "covers blk x y =
     (case blk of (bx, by, bw, bh, boost) \<Rightarrow> bx \<le> x \<and> x < bx + bw \<and> by \<le> y \<and> y < by + bh)"

definition on_boundary :: "block \<Rightarrow> int \<Rightarrow> int \<Rightarrow> bool" where
  "on_boundary blk x y =
     (case blk of (bx, by, bw, bh, boost) \<Rightarrow>
        x = bx \<or> x = bx + bw - 1 \<or> y = by \<or> y = by + bh - 1)"

definition color_boost :: "block \<Rightarrow> int" where
  "color_boost blk = (case blk of (bx, by, bw, bh, boost) \<Rightarrow> boost)"

definition grid_boost :: "int \<Rightarrow> int \<Rightarrow> int" where
  "grid_boost x y = (if x mod 128 = 0 \<or> y mod 128 = 0 then 30 else 0)"

definition layers :: "block list \<Rightarrow> int \<Rightarrow> int \<Rightarrow> int \<Rightarrow> int \<times> int \<times> int" where
  "layers blocks n x y =
     (20 + n + (\<Sum>blk\<leftarrow>blocks. if covers blk x y then color_boost blk sdiv 2 else 0) + grid_boost x y,
      30 + n + (\<Sum>blk\<leftarrow>blocks. if covers blk x y
                   then color_boost blk + (if on_boundary blk x y then 40 else 0) else 0)
        + grid_boost x y,
      25 + n + (\<Sum>blk\<leftarrow>blocks. if covers blk x y then color_boost blk sdiv 2 else 0) + grid_boost x y)"

text \<open>What one block adds to red and blue, and to green, in the source's arithmetic.\<close>

definition rb_add :: "int \<Rightarrow> int \<Rightarrow> block \<Rightarrow> int" where
  "rb_add x y blk = (if covers blk x y then color_boost blk div 2 else 0)"

definition g_add :: "int \<Rightarrow> int \<Rightarrow> block \<Rightarrow> int" where
  "g_add x y blk =
     (if covers blk x y then color_boost blk + (if on_boundary blk x y then 40 else 0) else 0)"

section \<open>Lemmas on the model\<close>

lemma and_not_3: "(k::int) AND NOT 3 = 4 * (k div 4)"
proof -
  have m: "(3::int) = mask 2" by (simp add: mask_eq_exp_minus_1)
  have s: "\<And>n. 2 \<le> n \<Longrightarrow> Suc (Suc (n - 2)) = n" by simp
  have "k AND NOT (mask 2) = push_bit 2 (drop_bit 2 k)"
    by (rule bit_eqI) (auto simp add: bit_simps s)
  then show ?thesis
    unfolding m by (simp add: push_bit_eq_mult drop_bit_eq_div)
qed

lemma row_size_eq: "row_size width = 4 * ((width * 3 + 3) div 4)"
  unfolding row_size_def by (rule and_not_3)

lemma row_size_bounds: "width * 3 \<le> row_size width \<and> row_size width < width * 3 + 4 \<and> row_size width mod 4 = 0"
  unfolding row_size_eq by presburger

lemma skip_simps [simp]: "tape (skip k g) = tape g" "pos (skip k g) = pos g + k" "skip 0 g = g"
  "skip j (skip k g) = skip (k + j) g"
  by (simp_all add: skip_def add.assoc)

lemma randint_ok: "a \<le> b \<Longrightarrow> randint a b g = Inr (draw a b g 0, skip 1 g)"
  by (simp add: randint_def draw_def skip_def)

lemma draw_range: "a \<le> b \<Longrightarrow> a \<le> draw a b g i \<and> draw a b g i \<le> b"
proof -
  assume "a \<le> b"
  then have "0 < nat (b - a + 1)" by simp
  then have "tape g (pos g + i) mod nat (b - a + 1) < nat (b - a + 1)" by (rule mod_less_divisor)
  then show ?thesis unfolding draw_def using \<open>a \<le> b\<close> by linarith
qed

lemma draw_skip [simp]: "draw a b (skip k g) i = draw a b g (k + i)"
  by (simp add: draw_def add.assoc)

lemma sample_block_ok:
  "0 \<le> width \<Longrightarrow> 0 \<le> height \<Longrightarrow> sample_block width height g = Inr (nth_block width height g 0, skip 5 g)"
  by (simp add: sample_block_def randint_ok nth_block_def eval_nat_numeral)

lemma nth_block_skip: "nth_block width height (skip 5 g) i = nth_block width height g (Suc i)"
  by (simp add: nth_block_def add.commute add.left_commute)

lemma sample_blocks_ok:
  "0 \<le> width \<Longrightarrow> 0 \<le> height \<Longrightarrow>
   sample_blocks k width height blocks g =
     Inr (blocks @ map (nth_block width height g) [0..<k], skip (5 * k) g)"
proof (induction k arbitrary: blocks g)
  case 0
  then show ?case by simp
next
  case (Suc k)
  have "[0..<Suc k] = 0 # map Suc [0..<k]"
    by (simp add: upt_conv_Cons map_Suc_upt del: upt_Suc)
  then have "map (nth_block width height g) [0..<Suc k] =
        nth_block width height g 0 # map (nth_block width height (skip 5 g)) [0..<k]"
    by (simp add: nth_block_skip comp_def del: upt_Suc)
  then show ?case using Suc by (simp add: sample_block_ok add.commute del: upt_Suc)
qed

lemma add_block_nonneg:
  assumes "0 \<le> snd (snd (snd (snd blk)))" "0 \<le> fst c" "0 \<le> fst (snd c)" "0 \<le> snd (snd c)"
  shows "0 \<le> fst (add_block x y c blk) \<and> 0 \<le> fst (snd (add_block x y c blk)) \<and> 0 \<le> snd (snd (add_block x y c blk))"
proof -
  obtain r g b where c: "c = (r, g, b)" by (cases c) auto
  obtain bx "by" bw bh boost where blk: "blk = (bx, by, bw, bh, boost)" by (cases blk) auto
  have "0 \<le> boost div 2" using assms(1) by (simp add: blk)
  then show ?thesis using assms by (simp add: c blk)
qed

lemma foldl_add_block_nonneg:
  "\<forall>blk \<in> set blocks. 0 \<le> snd (snd (snd (snd blk))) \<Longrightarrow>
   0 \<le> fst c \<Longrightarrow> 0 \<le> fst (snd c) \<Longrightarrow> 0 \<le> snd (snd c) \<Longrightarrow>
   0 \<le> fst (foldl (add_block x y) c blocks) \<and>
   0 \<le> fst (snd (foldl (add_block x y) c blocks)) \<and>
   0 \<le> snd (snd (foldl (add_block x y) c blocks))"
proof (induction blocks arbitrary: c)
  case Nil
  then show ?case by simp
next
  case (Cons blk blocks)
  have "0 \<le> fst (add_block x y c blk) \<and> 0 \<le> fst (snd (add_block x y c blk)) \<and> 0 \<le> snd (snd (add_block x y c blk))"
    using Cons.prems by (intro add_block_nonneg) simp_all
  then show ?case using Cons.IH [of "add_block x y c blk"] Cons.prems(1) by simp
qed

lemma pixel_upper:
  "fst (pixel blocks n x y) \<le> 255 \<and> fst (snd (pixel blocks n x y)) \<le> 255 \<and> snd (snd (pixel blocks n x y)) \<le> 255"
  by (simp add: pixel_def split: prod.splits)

lemma pixel_lower:
  assumes "\<forall>blk \<in> set blocks. 0 \<le> snd (snd (snd (snd blk)))" "0 \<le> n"
  shows "0 \<le> fst (pixel blocks n x y) \<and> 0 \<le> fst (snd (pixel blocks n x y)) \<and> 0 \<le> snd (snd (pixel blocks n x y))"
proof -
  obtain r g b where f: "foldl (add_block x y) (20 + n, 30 + n, 25 + n) blocks = (r, g, b)"
    by (cases "foldl (add_block x y) (20 + n, 30 + n, 25 + n) blocks") auto
  have "0 \<le> r \<and> 0 \<le> g \<and> 0 \<le> b"
    using foldl_add_block_nonneg [OF assms(1), of "(20 + n, 30 + n, 25 + n)" x y] assms(2)
    by (simp add: f)
  then show ?thesis by (simp add: pixel_def f)
qed

lemma store_ok:
  "i < length row \<Longrightarrow> 0 \<le> v \<Longrightarrow> v \<le> 255 \<Longrightarrow> store row (int i) v = Inr (row[i := v])"
  by (simp add: store_def Let_def)

lemma store3:
  assumes "length A = i" "3 \<le> length Z"
  shows "(A @ Z)[i := b, Suc i := g, Suc (Suc i) := r] = A @ [b, g, r] @ drop 3 Z"
proof -
  obtain z0 z1 z2 Z' where Z: "Z = z0 # z1 # z2 # Z'"
    using assms(2) by (cases Z; cases "tl Z"; cases "tl (tl Z)") auto
  show ?thesis using assms(1) by (simp add: Z list_update_append)
qed

lemma pix_bytes_Suc:
  "pix_bytes blocks y g k (Suc m) =
     bgr (pixel blocks (draw 0 10 g 0) (int k) y) @ pix_bytes blocks y (skip 1 g) (Suc k) m"
proof -
  have "[0..<Suc m] = 0 # map Suc [0..<m]"
    by (simp add: upt_conv_Cons map_Suc_upt del: upt_Suc)
  then show ?thesis by (simp add: pix_bytes_def comp_def ac_simps del: upt_Suc)
qed

lemma row_loop_ok:
  assumes nn: "\<forall>blk \<in> set blocks. 0 \<le> snd (snd (snd (snd blk)))"
  shows "length A = 3 * k \<Longrightarrow> 3 * m \<le> length Z \<Longrightarrow>
         row_loop blocks y (map int [k..<k + m]) (A @ Z) g =
           Inr (A @ pix_bytes blocks y g k m @ drop (3 * m) Z, skip m g)"
proof (induction m arbitrary: k A Z g)
  case 0
  then show ?case by (simp add: pix_bytes_def)
next
  case (Suc m)
  obtain r gr b where px: "pixel blocks (draw 0 10 g 0) (int k) y = (r, gr, b)"
    by (cases "pixel blocks (draw 0 10 g 0) (int k) y") auto
  have n0: "0 \<le> draw 0 10 g 0" using draw_range [of 0 10 g 0] by simp
  have rng: "0 \<le> r \<and> r \<le> 255 \<and> 0 \<le> gr \<and> gr \<le> 255 \<and> 0 \<le> b \<and> b \<le> 255"
    using pixel_lower [OF nn n0, of "int k" y] pixel_upper [of blocks "draw 0 10 g 0" "int k" y]
    by (simp add: px)
  have len: "3 * k + 2 < length (A @ Z)" using Suc.prems by simp
  have i1: "int k * 3 = int (3 * k)" by simp
  have i2: "int k * 3 + 1 = int (Suc (3 * k))" by simp
  have i3: "int k * 3 + 2 = int (Suc (Suc (3 * k)))" by simp
  have st: "(A @ Z)[3 * k := b, Suc (3 * k) := gr, Suc (Suc (3 * k)) := r] = (A @ [b, gr, r]) @ drop 3 Z"
    using store3 [of A "3 * k" Z b gr r] Suc.prems by simp
  have up: "[k..<k + Suc m] = k # [Suc k..<Suc k + m]"
    by (simp add: upt_conv_Cons del: upt_Suc)
  have ih: "row_loop blocks y (map int [Suc k..<Suc k + m]) ((A @ [b, gr, r]) @ drop 3 Z) (skip 1 g) =
            Inr ((A @ [b, gr, r]) @ pix_bytes blocks y (skip 1 g) (Suc k) m @ drop (3 * m) (drop 3 Z),
                 skip m (skip 1 g))"
    using Suc.prems by (intro Suc.IH) simp_all
  have s1: "store (A @ Z) (int k * 3) b = Inr ((A @ Z)[3 * k := b])"
    unfolding i1 using len rng by (intro store_ok) simp_all
  have s2: "store ((A @ Z)[3 * k := b]) (int k * 3 + 1) gr = Inr ((A @ Z)[3 * k := b, Suc (3 * k) := gr])"
    unfolding i2 using len rng by (intro store_ok) simp_all
  have s3: "store ((A @ Z)[3 * k := b, Suc (3 * k) := gr]) (int k * 3 + 2) r =
            Inr ((A @ Z)[3 * k := b, Suc (3 * k) := gr, Suc (Suc (3 * k)) := r])"
    unfolding i3 using len rng by (intro store_ok) simp_all
  have "row_loop blocks y (map int [k..<k + Suc m]) (A @ Z) g =
        row_loop blocks y (map int [Suc k..<Suc k + m]) ((A @ [b, gr, r]) @ drop 3 Z) (skip 1 g)"
    unfolding up by (simp add: randint_ok px s1 s2 s3 st del: upt_Suc)
  also note ih
  finally show ?case by (simp add: pix_bytes_Suc px add.commute)
qed

lemma gen_row_ok:
  assumes nn: "\<forall>blk \<in> set blocks. 0 \<le> snd (snd (snd (snd blk)))" and w: "0 \<le> width"
  shows "row_loop blocks y (range_py width) (replicate (nat (row_size width)) 0) g =
           Inr (row_bytes blocks width y g, skip (nat width) g)"
proof -
  have le: "3 * nat width \<le> nat (row_size width)" using row_size_bounds [of width] w by linarith
  show ?thesis
    using row_loop_ok [OF nn, of "[]" 0 "nat width" "replicate (nat (row_size width)) 0" y g] le
    by (simp add: range_py_def row_bytes_def)
qed

lemma rows_loop_ok:
  assumes nn: "\<forall>blk \<in> set blocks. 0 \<le> snd (snd (snd (snd blk)))" and w: "0 \<le> width"
  shows "rows_loop blocks width (map int [j..<j + m]) f g =
           (None, f @ concat (map (\<lambda>i. row_bytes blocks width (int (j + i)) (skip (i * nat width) g)) [0..<m]))"
proof (induction m arbitrary: j f g)
  case 0
  then show ?case by simp
next
  case (Suc m)
  have rs: "0 \<le> row_size width" using row_size_bounds [of width] w by linarith
  have up: "[j..<j + Suc m] = j # [Suc j..<Suc j + m]"
    by (simp add: upt_conv_Cons del: upt_Suc)
  have sh: "[0..<Suc m] = 0 # map Suc [0..<m]"
    by (simp add: upt_conv_Cons map_Suc_upt del: upt_Suc)
  have "rows_loop blocks width (map int [j..<j + Suc m]) f g =
        rows_loop blocks width (map int [Suc j..<Suc j + m]) (f @ row_bytes blocks width (int j) g)
          (skip (nat width) g)"
    unfolding up using rs by (simp add: bytearray_def gen_row_ok [OF nn w] del: upt_Suc)
  also note Suc.IH [of "Suc j" "f @ row_bytes blocks width (int j) g" "skip (nat width) g"]
  finally show ?case
    unfolding sh by (simp add: comp_def ac_simps del: upt_Suc)
qed

lemma le_bytes_2: "le_bytes 2 v = [v mod 256, v div 256 mod 256]"
  by (simp add: le_bytes_def upt_rec numeral_2_eq_2)

lemma le_bytes_4:
  "le_bytes 4 v = [v mod 256, v div 256 mod 256, v div 65536 mod 256, v div 16777216 mod 256]"
proof -
  have "[0..<4] = [0, 1, 2, 3]" by (simp add: upt_rec)
  then show ?thesis by (simp add: le_bytes_def)
qed

lemma length_header_bytes: "length (header_bytes width height) = 54"
  by (simp add: header_bytes_def le_bytes_def)

lemma header_ok:
  assumes "0 \<le> row_size width * height" "14 + 40 + row_size width * height < 2 ^ 32"
    "- (2 ^ 31) \<le> width" "width < 2 ^ 31" "- (2 ^ 31) \<le> height" "height < 2 ^ 31"
  shows "write_all (header_fields width height) [] = (None, header_bytes width height)"
  using assms by (simp add: header_fields_def Let_def pack_I_def pack_i_def pack_H_def header_bytes_def)

lemma sampled_boost:
  "\<forall>blk \<in> set (sampled k width height g). 20 \<le> snd (snd (snd (snd blk))) \<and> snd (snd (snd (snd blk))) \<le> 60"
  using draw_range [of 20 60 g] by (auto simp add: sampled_def nth_block_def)

lemma sampled_nonneg: "\<forall>blk \<in> set (sampled k width height g). 0 \<le> snd (snd (snd (snd blk)))"
  using sampled_boost [of k width height g] by force

lemma dims_fit:
  assumes "0 < width" "0 < height" "14 + 40 + row_size width * height < 2 ^ 32"
  shows "0 \<le> row_size width * height" "width < 2 ^ 31" "height < 2 ^ 31"
proof -
  have rs: "3 * width \<le> row_size width" using row_size_bounds [of width] by linarith
  then have rs3: "3 \<le> row_size width" using assms(1) by linarith
  have a: "row_size width * 1 \<le> row_size width * height"
    using rs3 assms(2) by (intro mult_left_mono) simp_all
  have b: "3 * height \<le> row_size width * height"
    using rs3 assms(2) by (intro mult_right_mono) simp_all
  show "0 \<le> row_size width * height" using a rs3 by linarith
  show "width < 2 ^ 31" using a rs assms(3) by simp
  show "height < 2 ^ 31" using b assms(3) by simp
qed

lemma generate_ok:
  assumes "0 < width" "0 < height" "14 + 40 + row_size width * height < 2 ^ 32"
  shows "generate_chip_bg width height g =
           (None, header_bytes width height @ image_bytes width height g)"
proof -
  have h: "write_all (header_fields width height) [] = (None, header_bytes width height)"
    using dims_fit [OF assms] assms by (intro header_ok) simp_all
  have b: "sample_blocks 50 width height [] g = Inr (sampled 50 width height g, skip 250 g)"
    using sample_blocks_ok [of width height 50 "[]" g] assms by (simp add: sampled_def)
  have r: "rows_loop (sampled 50 width height g) width (range_py height) (header_bytes width height) (skip 250 g) =
           (None, header_bytes width height @ image_bytes width height g)"
    using rows_loop_ok [OF sampled_nonneg, where j = 0 and m = "nat height" and g = "skip 250 g"
        and width = width and f = "header_bytes width height"] assms(1)
    by (simp add: range_py_def image_bytes_def)
  show ?thesis by (simp add: generate_chip_bg_def h b r)
qed

lemma length_concat_uniform:
  "(\<forall>j<m. length (F j) = L) \<Longrightarrow> length (concat (map F [0..<m])) = m * L"
  by (induction m) simp_all

lemma nth_concat_uniform:
  "(\<forall>j<m. length (F j) = L) \<Longrightarrow> j < m \<Longrightarrow> i < L \<Longrightarrow>
   concat (map F [0..<m]) ! (j * L + i) = F j ! i"
proof (induction m)
  case 0
  then show ?case by simp
next
  case (Suc m)
  have len: "length (concat (map F [0..<m])) = m * L"
    using Suc.prems(1) by (intro length_concat_uniform) simp
  show ?case
  proof (cases "j < m")
    case True
    have "j * L + i < Suc j * L" using Suc.prems(3) by simp
    also have "\<dots> \<le> m * L" using True by (intro mult_le_mono1) simp
    finally have lt: "j * L + i < m * L" .
    show ?thesis using Suc.IH Suc.prems True lt by (simp add: nth_append len)
  next
    case False
    then have "j = m" using Suc.prems(2) by simp
    then show ?thesis by (simp add: nth_append len)
  qed
qed

lemma length_bgr [simp]: "length (bgr p) = 3"
  by (cases p) simp

lemma length_pix_bytes: "length (pix_bytes blocks y g k m) = 3 * m"
  using length_concat_uniform [of m "\<lambda>i. bgr (pixel blocks (draw 0 10 g i) (int (k + i)) y)" 3]
  by (simp add: pix_bytes_def mult.commute)

lemma length_row_bytes:
  "0 \<le> width \<Longrightarrow> length (row_bytes blocks width y g) = nat (row_size width)"
proof -
  assume w: "0 \<le> width"
  have "3 * nat width \<le> nat (row_size width)" using row_size_bounds [of width] w by linarith
  then show ?thesis by (simp add: row_bytes_def length_pix_bytes)
qed

lemma nth_row_bytes:
  assumes "x < nat width" "c < 3"
  shows "row_bytes blocks width y g ! (3 * x + c) = bgr (pixel blocks (draw 0 10 g x) (int x) y) ! c"
proof -
  have "pix_bytes blocks y g 0 (nat width) ! (x * 3 + c) = bgr (pixel blocks (draw 0 10 g x) (int x) y) ! c"
    using nth_concat_uniform [of "nat width" "\<lambda>i. bgr (pixel blocks (draw 0 10 g i) (int i) y)" 3 x c] assms
    by (simp add: pix_bytes_def)
  moreover have "3 * x + c < 3 * nat width" using assms by simp
  ultimately show ?thesis
    by (simp add: row_bytes_def nth_append length_pix_bytes mult.commute)
qed

lemma length_image_bytes:
  "0 \<le> width \<Longrightarrow> length (image_bytes width height g) = nat height * nat (row_size width)"
  unfolding image_bytes_def by (intro length_concat_uniform) (simp add: length_row_bytes)

lemma emitted:
  assumes "0 < width" "0 < height" "14 + 40 + row_size width * height < 2 ^ 32"
    and "x < nat width" "y < nat height" "c < 3"
  shows "snd (generate_chip_bg width height g) ! (54 + y * nat (row_size width) + 3 * x + c) =
         bgr (pixel (sampled 50 width height g) (draw 0 10 g (250 + y * nat width + x)) (int x) (int y)) ! c"
proof -
  have w: "0 \<le> width" using assms(1) by simp
  have lt: "3 * x + c < nat (row_size width)"
    using row_size_bounds [of width] assms(4,6) by linarith
  have "image_bytes width height g ! (y * nat (row_size width) + (3 * x + c)) =
        row_bytes (sampled 50 width height g) width (int y) (skip (250 + y * nat width) g) ! (3 * x + c)"
    unfolding image_bytes_def using assms(5) lt
    by (intro nth_concat_uniform) (simp_all add: length_row_bytes [OF w])
  then show ?thesis
    by (simp add: generate_ok [OF assms(1-3)] nth_append length_header_bytes
        nth_row_bytes [OF assms(4) assms(6)] add.assoc)
qed

lemma write_all_eq: "write_all ps f = (failure ps, f @ payload ps)"
  by (induction ps f rule: write_all.induct) simp_all

lemma header_failure:
  "failure (header_fields width height) = None \<longleftrightarrow>
     0 \<le> row_size width * height \<and> 14 + 40 + row_size width * height < 2 ^ 32 \<and>
     - (2 ^ 31) \<le> width \<and> width < 2 ^ 31 \<and> - (2 ^ 31) \<le> height \<and> height < 2 ^ 31"
  by (auto simp add: header_fields_def Let_def pack_I_def pack_i_def pack_H_def)

lemma header_payload:
  "failure (header_fields width height) = None \<Longrightarrow>
   payload (header_fields width height) = header_bytes width height"
  by (simp add: header_failure) (simp add: header_fields_def Let_def pack_I_def pack_i_def pack_H_def header_bytes_def)

lemma header_payload_short:
  "take 2 (payload (header_fields width height)) = [0x42, 0x4D] \<and>
   length (payload (header_fields width height)) \<le> 54"
  by (simp add: header_fields_def Let_def pack_I_def pack_i_def pack_H_def le_bytes_def)

lemma sample_blocks_neg:
  "width < 0 \<or> height < 0 \<Longrightarrow> sample_blocks (Suc k) width height blocks g = Inl ValueError"
  by (auto simp add: sample_block_def randint_def)

lemma generate_neg:
  assumes "width < 0 \<or> height < 0"
  shows "generate_chip_bg width height g =
           ((case failure (header_fields width height) of None \<Rightarrow> Some ValueError | Some e \<Rightarrow> Some e),
            payload (header_fields width height))"
proof -
  have "sample_blocks 50 width height [] g = Inl ValueError"
    using sample_blocks_neg [OF assms, of 49 "[]" g] by simp
  then show ?thesis
    by (simp add: generate_chip_bg_def write_all_eq split: option.splits)
qed

lemma generate_eq:
  assumes "0 \<le> width" "0 \<le> height"
  shows "generate_chip_bg width height g =
           (failure (header_fields width height),
            (if failure (header_fields width height) = None
             then header_bytes width height @ image_bytes width height g
             else payload (header_fields width height)))"
proof -
  have b: "sample_blocks 50 width height [] g = Inr (sampled 50 width height g, skip 250 g)"
    using sample_blocks_ok [of width height 50 "[]" g] assms by (simp add: sampled_def)
  have r: "rows_loop (sampled 50 width height g) width (range_py height) f (skip 250 g) =
           (None, f @ image_bytes width height g)" for f
    using rows_loop_ok [OF sampled_nonneg, where j = 0 and m = "nat height" and g = "skip 250 g"
        and width = width and f = f] assms(1)
    by (simp add: range_py_def image_bytes_def)
  show ?thesis
    by (simp add: generate_chip_bg_def write_all_eq b r header_payload split: option.splits)
qed

lemma generate_success:
  assumes "fst (generate_chip_bg width height g) = None"
  shows "0 \<le> width \<and> 0 \<le> height \<and> 14 + 40 + row_size width * height < 2 ^ 32 \<and>
         generate_chip_bg width height g = (None, header_bytes width height @ image_bytes width height g)"
proof (cases "width < 0 \<or> height < 0")
  case True
  then show ?thesis using assms by (simp add: generate_neg split: option.splits)
next
  case False
  then have wh: "0 \<le> width" "0 \<le> height" by simp_all
  have f: "failure (header_fields width height) = None"
    using assms by (simp add: generate_eq [OF wh])
  then show ?thesis using wh by (simp add: generate_eq [OF wh] header_failure)
qed

lemma le_bytes_Suc: "le_bytes (Suc k) v = v mod 256 # le_bytes k (v div 256)"
proof -
  have "[0..<Suc k] = 0 # map Suc [0..<k]"
    by (simp add: upt_conv_Cons map_Suc_upt del: upt_Suc)
  moreover have "v div (256 * 256 ^ i) = v div 256 div 256 ^ i" for i
    by (rule zdiv_zmult2_eq) simp
  ultimately show ?thesis
    by (simp add: le_bytes_def comp_def del: upt_Suc)
qed

lemma le_uint_le_bytes: "le_uint (le_bytes k v) = v mod 256 ^ k"
proof (induction k arbitrary: v)
  case 0
  then show ?case by (simp add: le_uint_def le_bytes_def)
next
  case (Suc k)
  have "le_uint (le_bytes (Suc k) v) = v mod 256 + 256 * le_uint (le_bytes k (v div 256))"
    by (simp add: le_bytes_Suc le_uint_def)
  also have "\<dots> = 256 * (v div 256 mod 256 ^ k) + v mod 256"
    by (simp add: Suc.IH)
  also have "\<dots> = v mod (256 * 256 ^ k)"
    by (rule zmod_zmult2_eq [symmetric]) simp
  finally show ?case by simp
qed

lemma le_uint_le_bytes_4: "le_uint (le_bytes 4 v) = v mod 2 ^ 32"
  using le_uint_le_bytes [of 4 v] by simp

lemma le_uint_pack: "0 \<le> v \<Longrightarrow> v < 2 ^ 32 \<Longrightarrow> le_uint (le_bytes 4 v) = v"
  by (simp add: le_uint_le_bytes_4)

lemma le_sint32_pack: "- (2 ^ 31) \<le> v \<Longrightarrow> v < 2 ^ 31 \<Longrightarrow> le_sint32 (le_bytes 4 v) = v"
proof -
  assume a: "- (2 ^ 31) \<le> v" "v < 2 ^ 31"
  show ?thesis
  proof (cases "0 \<le> v")
    case True
    then have "v mod 2 ^ 32 = v" using a by simp
    then show ?thesis using a by (simp add: le_sint32_def le_uint_le_bytes_4)
  next
    case False
    then have "(v + 2 ^ 32) mod 2 ^ 32 = v + 2 ^ 32" using a by (intro mod_pos_pos_trivial) simp_all
    then have "v mod 2 ^ 32 = v + 2 ^ 32" by simp
    then show ?thesis using a False by (simp add: le_sint32_def le_uint_le_bytes_4)
  qed
qed

lemma header_slices:
  "take 2 (header_bytes width height @ img) = [0x42, 0x4D]"
  "take 4 (drop 2 (header_bytes width height @ img)) = le_bytes 4 (14 + 40 + row_size width * height)"
  "take 4 (drop 14 (header_bytes width height @ img)) = le_bytes 4 40"
  "take 4 (drop 18 (header_bytes width height @ img)) = le_bytes 4 width"
  "take 4 (drop 22 (header_bytes width height @ img)) = le_bytes 4 height"
  by (simp_all add: header_bytes_def le_bytes_4 le_bytes_2)

text \<open>
  C5, as amended. For every width and height above 0 whose file size
  \<open>14 + 40 + row_size width * height\<close> is below \<open>2 ^ 32\<close>, the size that the
  unsigned 32-bit field of the file header can hold, the call ends without an exception
  and the file begins with the bytes \<open>0x42 0x4D\<close>; its bytes 14 to 17 read as a
  little-endian unsigned integer are 40; its bytes 18 to 21 and 22 to 25 read as
  little-endian signed 32-bit integers are the width and the height; and the file size
  stored in bytes 2 to 5 is \<open>14 + 40 + row_size width * height\<close>, which is the length
  of the file.
\<close>

theorem header_of_fitting_image:
  assumes "0 < width" "0 < height" "14 + 40 + row_size width * height < 2 ^ 32"
  shows "\<exists>out. generate_chip_bg width height g = (None, out) \<and>
           take 2 out = [0x42, 0x4D] \<and>
           le_uint (take 4 (drop 14 out)) = 40 \<and>
           le_sint32 (take 4 (drop 18 out)) = width \<and>
           le_sint32 (take 4 (drop 22 out)) = height \<and>
           le_uint (take 4 (drop 2 out)) = 14 + 40 + row_size width * height \<and>
           int (length out) = 14 + 40 + row_size width * height"
proof -
  let ?out = "header_bytes width height @ image_bytes width height g"
  note fit = dims_fit [OF assms]
  have rs: "0 \<le> row_size width" using row_size_bounds [of width] assms(1) by linarith
  have len: "int (length ?out) = 14 + 40 + row_size width * height"
    using assms(1,2) rs by (simp add: length_header_bytes length_image_bytes mult.commute)
  have g: "generate_chip_bg width height g = (None, ?out)"
    by (rule generate_ok [OF assms])
  have s0: "take 2 ?out = [0x42, 0x4D]"
    by (rule header_slices(1))
  have s1: "le_uint (take 4 (drop 14 ?out)) = 40"
    unfolding header_slices by (simp add: le_uint_le_bytes_4)
  have s2: "le_sint32 (take 4 (drop 18 ?out)) = width"
    unfolding header_slices using assms(1) fit by (intro le_sint32_pack) simp_all
  have s3: "le_sint32 (take 4 (drop 22 ?out)) = height"
    unfolding header_slices using assms(2) fit by (intro le_sint32_pack) simp_all
  have s4: "le_uint (take 4 (drop 2 ?out)) = 14 + 40 + row_size width * height"
    unfolding header_slices using fit assms(3) by (intro le_uint_pack) simp_all
  show ?thesis
    using g s0 s1 s2 s3 s4 len by blast
qed

text \<open>The theorem at width 2 and height 3.\<close>

theorem header_of_fitting_image_witness:
  "(0::int) < 2 \<and> (0::int) < 3 \<and> 14 + 40 + row_size 2 * 3 < 2 ^ 32 \<and>
   (\<exists>out. generate_chip_bg 2 3 (Rng (const_tape 0) 0) = (None, out) \<and>
           take 2 out = [0x42, 0x4D] \<and>
           le_uint (take 4 (drop 14 out)) = 40 \<and>
           le_sint32 (take 4 (drop 18 out)) = 2 \<and>
           le_sint32 (take 4 (drop 22 out)) = 3 \<and>
           le_uint (take 4 (drop 2 out)) = 14 + 40 + row_size 2 * 3 \<and>
           int (length out) = 14 + 40 + row_size 2 * 3)"
proof -
  have h: "14 + 40 + row_size 2 * 3 < (2::int) ^ 32" by (simp add: row_size_def)
  show ?thesis
    using header_of_fitting_image [of 2 3 "Rng (const_tape 0) 0"] h by simp
qed

text \<open>
  C5 as stated fails for positive dimensions whose file size does not fit the 32-bit
  field: at 40000 by 40000 the first \<^verbatim>\<open>struct.pack\<close> raises, and the file holds
  the two signature bytes only.
\<close>

theorem oversized_image_counterexample:
  "(0::int) < 40000 \<and>
   generate_chip_bg 40000 40000 (Rng (const_tape 0) 0) = (Some StructError, [0x42, 0x4D]) \<and>
   int (length (snd (generate_chip_bg 40000 40000 (Rng (const_tape 0) 0)))) \<noteq>
     14 + 40 + row_size 40000 * 40000"
  by (simp add: generate_chip_bg_def header_fields_def row_size_def pack_I_def)

lemma image_bytes_empty: "0 \<le> width \<Longrightarrow> width = 0 \<or> height \<le> 0 \<Longrightarrow> image_bytes width height g = []"
proof -
  assume w: "0 \<le> width" and d: "width = 0 \<or> height \<le> 0"
  have "length (image_bytes width height g) = nat height * nat (row_size width)"
    by (rule length_image_bytes [OF w])
  moreover have "nat height * nat (row_size width) = 0"
    using d by (auto simp add: row_size_def)
  ultimately show ?thesis by simp
qed

lemma header_failure_kind:
  "failure (header_fields width height) = None \<or> failure (header_fields width height) = Some StructError"
  by (simp add: header_fields_def Let_def pack_I_def pack_i_def pack_H_def)

text \<open>
  C6. For every positive width the row size that the encoder uses, which is the size of
  the row buffer it allocates, is \<open>((width * 3) + 3) AND NOT 3\<close>, and a call that ends
  without an exception has written \<open>14 + 40\<close> bytes plus that row size times the
  height. The row size is 3072 for width 1024 and 4 for width 1. For width 1 and height 1
  the call ends without an exception, whatever the state of the random generator: the
  blocks and the grid raise nothing, the file has 58 bytes, and its first 54 bytes are
  the headers of a 1 by 1 image with file size 58 and image size 4.
\<close>

theorem row_stride:
  assumes "0 < width"
  shows "row_size width = (width * 3 + 3) AND NOT 3 \<and>
         bytearray (row_size width) = Inr (replicate (nat ((width * 3 + 3) AND NOT 3)) 0) \<and>
         (fst (generate_chip_bg width height g) = None \<longrightarrow>
            int (length (snd (generate_chip_bg width height g))) =
              14 + 40 + ((width * 3 + 3) AND NOT 3) * height) \<and>
         row_size 1024 = 3072 \<and> row_size 1 = 4 \<and>
         fst (generate_chip_bg 1 1 g') = None \<and>
         length (snd (generate_chip_bg 1 1 g')) = 58 \<and>
         take 54 (snd (generate_chip_bg 1 1 g')) =
           [0x42, 0x4D, 58, 0, 0, 0, 0, 0, 0, 0, 54, 0, 0, 0,
            40, 0, 0, 0, 1, 0, 0, 0, 1, 0, 0, 0, 1, 0, 24, 0, 0, 0, 0, 0, 4, 0, 0, 0,
            19, 11, 0, 0, 19, 11, 0, 0, 0, 0, 0, 0, 0, 0, 0, 0]"
proof -
  have rs: "0 \<le> row_size width" using row_size_bounds [of width] assms by linarith
  have a: "bytearray (row_size width) = Inr (replicate (nat ((width * 3 + 3) AND NOT 3)) 0)"
    using rs by (simp add: bytearray_def) (simp add: row_size_def)
  have b: "int (length (snd (generate_chip_bg width height g))) =
             14 + 40 + ((width * 3 + 3) AND NOT 3) * height"
    if s: "fst (generate_chip_bg width height g) = None"
  proof -
    note gs = generate_success [OF s]
    have "int (length (header_bytes width height @ image_bytes width height g)) =
          14 + 40 + row_size width * height"
      using gs rs assms by (simp add: length_header_bytes length_image_bytes mult.commute)
    then show ?thesis using gs by (simp add: row_size_def)
  qed
  have r1: "row_size 1 = 4" by (simp add: row_size_def)
  have fit: "14 + 40 + row_size 1 * 1 < (2::int) ^ 32" by (simp add: r1)
  have g1: "generate_chip_bg 1 1 g' = (None, header_bytes 1 1 @ image_bytes 1 1 g')"
    by (rule generate_ok [OF _ _ fit]) simp_all
  have l1: "length (snd (generate_chip_bg 1 1 g')) = 58"
    by (simp add: g1 length_header_bytes length_image_bytes r1)
  have h1: "take 54 (snd (generate_chip_bg 1 1 g')) =
           [0x42, 0x4D, 58, 0, 0, 0, 0, 0, 0, 0, 54, 0, 0, 0,
            40, 0, 0, 0, 1, 0, 0, 0, 1, 0, 0, 0, 1, 0, 24, 0, 0, 0, 0, 0, 4, 0, 0, 0,
            19, 11, 0, 0, 19, 11, 0, 0, 0, 0, 0, 0, 0, 0, 0, 0]"
    by (simp add: g1 length_header_bytes) (simp add: header_bytes_def le_bytes_4 le_bytes_2 r1)
  have r2: "row_size 1024 = 3072" by (simp add: row_size_def)
  show ?thesis
    using a b r1 r2 g1 l1 h1 by (simp add: row_size_def)
qed

text \<open>The theorem at width 2 and height 3.\<close>

theorem row_stride_witness:
  "(0::int) < 2 \<and> fst (generate_chip_bg 2 3 (Rng (const_tape 0) 0)) = None \<and>
   row_size 2 = (2 * 3 + 3) AND NOT 3 \<and>
   int (length (snd (generate_chip_bg 2 3 (Rng (const_tape 0) 0)))) =
     14 + 40 + ((2 * 3 + 3) AND NOT 3) * 3 \<and>
   length (snd (generate_chip_bg 1 1 (Rng (const_tape 0) 0))) = 58"
proof -
  have fit: "14 + 40 + row_size 2 * 3 < (2::int) ^ 32" by (simp add: row_size_def)
  have s: "fst (generate_chip_bg 2 3 (Rng (const_tape 0) 0)) = None"
    by (simp add: generate_ok [OF _ _ fit])
  show ?thesis
    using row_stride [of 2 3 "Rng (const_tape 0) 0" "Rng (const_tape 0) 0"] s by simp
qed

text \<open>
  C2, as amended. The function does not check its dimensions. For every call with
  \<open>width \<le> 0\<close> or \<open>height \<le> 0\<close> the file begins with the signature
  \<open>0x42 0x4D\<close> and holds at most the 54 bytes of the headers, never pixel data. The call
  ends without an exception exactly when one dimension is 0 and the other lies in
  \<open>[0, 2 ^ 31)\<close>, and the file is then the complete 54-byte header; in every other
  case it raises \<^verbatim>\<open>struct.error\<close> or \<^verbatim>\<open>ValueError\<close>.
\<close>

theorem invalid_dimensions_written:
  assumes "width \<le> 0 \<or> height \<le> 0"
  shows "take 2 (snd (generate_chip_bg width height g)) = [0x42, 0x4D] \<and>
         length (snd (generate_chip_bg width height g)) \<le> 54 \<and>
         (fst (generate_chip_bg width height g) = None \<longleftrightarrow>
            (width = 0 \<and> 0 \<le> height \<and> height < 2 ^ 31) \<or>
            (height = 0 \<and> 0 \<le> width \<and> width < 2 ^ 31)) \<and>
         (fst (generate_chip_bg width height g) = None \<longrightarrow>
            snd (generate_chip_bg width height g) = header_bytes width height) \<and>
         (fst (generate_chip_bg width height g) \<noteq> None \<longrightarrow>
            fst (generate_chip_bg width height g) = Some StructError \<or>
            fst (generate_chip_bg width height g) = Some ValueError)"
proof (cases "width < 0 \<or> height < 0")
  case True
  have k: "failure (header_fields width height) = None \<or>
           failure (header_fields width height) = Some StructError"
    by (rule header_failure_kind)
  show ?thesis
    using True k header_payload_short [of width height]
    by (auto simp add: generate_neg [OF True])
next
  case False
  then have wh: "0 \<le> width" "0 \<le> height" by simp_all
  have z: "width = 0 \<or> height \<le> 0" using assms wh by linarith
  have img: "image_bytes width height g = []"
    by (rule image_bytes_empty [OF wh(1) z])
  have k: "failure (header_fields width height) = None \<or>
           failure (header_fields width height) = Some StructError"
    by (rule header_failure_kind)
  have p: "failure (header_fields width height) = None \<Longrightarrow>
           payload (header_fields width height) = header_bytes width height"
    by (rule header_payload)
  have f: "failure (header_fields width height) = None \<longleftrightarrow>
            (width = 0 \<and> 0 \<le> height \<and> height < 2 ^ 31) \<or>
            (height = 0 \<and> 0 \<le> width \<and> width < 2 ^ 31)"
    using z wh by (auto simp add: header_failure row_size_def)
  have sh: "take 2 (payload (header_fields width height)) = [0x42, 0x4D]"
           "length (payload (header_fields width height)) \<le> 54"
    using header_payload_short [of width height] by simp_all
  show ?thesis
  proof (cases "failure (header_fields width height) = None")
    case True
    have gen: "generate_chip_bg width height g = (None, header_bytes width height)"
      using True by (simp add: generate_eq [OF wh] img)
    have hb: "take 2 (header_bytes width height) = [0x42, 0x4D]"
      using sh(1) p [OF True] by simp
    have dims: "(width = 0 \<and> 0 \<le> height \<and> height < 2 ^ 31) \<or>
                (height = 0 \<and> 0 \<le> width \<and> width < 2 ^ 31)"
      using f True by simp
    show ?thesis
      unfolding gen fst_conv snd_conv using hb dims by (simp add: length_header_bytes)
  next
    case False
    then have e: "failure (header_fields width height) = Some StructError"
      using k by auto
    have gen: "generate_chip_bg width height g =
                 (Some StructError, payload (header_fields width height))"
      using e by (simp add: generate_eq [OF wh])
    have dims: "\<not> ((width = 0 \<and> 0 \<le> height \<and> height < 2 ^ 31) \<or>
                (height = 0 \<and> 0 \<le> width \<and> width < 2 ^ 31))"
      using f False by simp
    show ?thesis
      unfolding gen fst_conv snd_conv using sh dims by simp
  qed
qed

text \<open>The theorem at width 0 and height -5.\<close>

theorem invalid_dimensions_written_witness:
  "((0::int) \<le> 0 \<or> (-5::int) \<le> 0) \<and>
   take 2 (snd (generate_chip_bg 0 (-5) (Rng (const_tape 0) 0))) = [0x42, 0x4D] \<and>
   length (snd (generate_chip_bg 0 (-5) (Rng (const_tape 0) 0))) \<le> 54 \<and>
   fst (generate_chip_bg 0 (-5) (Rng (const_tape 0) 0)) \<noteq> None"
  using invalid_dimensions_written [of 0 "-5" "Rng (const_tape 0) 0"] by simp

text \<open>
  C2 as stated fails at width 0 and height 1: the call raises nothing, and the file holds
  the 54 bytes of the headers.
\<close>

theorem invalid_dimensions_counterexample:
  "((0::int) \<le> 0 \<or> (1::int) \<le> 0) \<and>
   generate_chip_bg 0 1 (Rng (const_tape 0) 0) =
     (None, [0x42, 0x4D, 54, 0, 0, 0, 0, 0, 0, 0, 54, 0, 0, 0,
            40, 0, 0, 0, 0, 0, 0, 0, 1, 0, 0, 0, 1, 0, 24, 0, 0, 0, 0, 0, 0, 0, 0, 0,
            19, 11, 0, 0, 19, 11, 0, 0, 0, 0, 0, 0, 0, 0, 0, 0])"
proof -
  have "image_bytes 0 1 (Rng (const_tape 0) 0) = []"
    by (rule image_bytes_empty) simp_all
  then show ?thesis
    by (simp add: generate_eq header_failure row_size_def header_bytes_def le_bytes_4 le_bytes_2)
qed

lemma take_drop_concat_uniform:
  assumes "\<forall>j<m. length (F j) = L" "j < m"
  shows "take L (drop (j * L) (concat (map F [0..<m]))) = F j"
proof (rule nth_equalityI)
  have len: "length (concat (map F [0..<m])) = m * L"
    by (rule length_concat_uniform [OF assms(1)])
  have "Suc j * L \<le> m * L" using assms(2) by (intro mult_le_mono1) simp
  then have "L \<le> m * L - j * L" by simp
  then show l: "length (take L (drop (j * L) (concat (map F [0..<m])))) = length (F j)"
    using assms by (simp add: len)
  fix i
  assume "i < length (take L (drop (j * L) (concat (map F [0..<m]))))"
  then have i: "i < L" by simp
  have "j * L + i < Suc j * L" using i by simp
  also have "\<dots> \<le> m * L" using assms(2) by (intro mult_le_mono1) simp
  finally have "j * L + i < length (concat (map F [0..<m]))" by (simp add: len)
  then show "take L (drop (j * L) (concat (map F [0..<m]))) ! i = F j ! i"
    using i nth_concat_uniform [OF assms i] by simp
qed

lemma sampled_const_tape:
  "0 \<le> width \<Longrightarrow> 0 \<le> height \<Longrightarrow>
   sampled k width height (Rng (const_tape c) p) =
     replicate k (int (c mod nat (width + 1)), int (c mod nat (height + 1)),
                  50 + int (c mod 151), 50 + int (c mod 151), 20 + int (c mod 41))"
proof -
  have "nth_block width height (Rng (const_tape c) p) =
        (\<lambda>i. (int (c mod nat (width + 1)), int (c mod nat (height + 1)),
                  50 + int (c mod 151), 50 + int (c mod 151), 20 + int (c mod 41)))"
    by (rule ext) (simp add: nth_block_def draw_def const_tape_def)
  then show ?thesis by (simp add: sampled_def map_replicate_const)
qed

lemma foldl_add_block_replicate_outside:
  "\<not> (bx \<le> x \<and> x < bx + bw \<and> by \<le> y \<and> y < by + bh) \<Longrightarrow>
   foldl (add_block x y) c (replicate k (bx, by, bw, bh, boost)) = c"
proof -
  assume out: "\<not> (bx \<le> x \<and> x < bx + bw \<and> by \<le> y \<and> y < by + bh)"
  obtain r g b where c: "c = (r, g, b)" by (cases c) auto
  have "add_block x y c (bx, by, bw, bh, boost) = c" using out by (auto simp add: c)
  then show ?thesis by (induction k) simp_all
qed

text \<open>
  C3, as amended. The encoder does not reorder the rows: in every call that ends without
  an exception, the rows are in the file in the order in which the loop over \<open>y\<close>
  produced them, \<open>y = 0\<close> first. The row that the pixel loop builds for \<open>y\<close>, from
  a zeroed buffer of \<open>row_size width\<close> bytes, the sampled blocks and the generator as
  the \<open>y\<close> rows before left it, is the slice of \<open>row_size width\<close> bytes at offset
  \<open>54 + y * row_size width\<close> of the file; so the row for \<open>y = height - 1\<close> is the
  last row of the pixel data.
\<close>

theorem rows_in_loop_order:
  assumes "fst (generate_chip_bg width height g) = None" "y < nat height"
    and "sample_blocks 50 width height [] g = Inr (blocks, g1)"
  shows "row_loop blocks (int y) (range_py width) (replicate (nat (row_size width)) 0)
           (skip (y * nat width) g1) =
         Inr (take (nat (row_size width))
                (drop (54 + y * nat (row_size width)) (snd (generate_chip_bg width height g))),
              skip (Suc y * nat width) g1)"
proof -
  note gs = generate_success [OF assms(1)]
  have w: "0 \<le> width" and h: "0 \<le> height" using gs by simp_all
  have b: "blocks = sampled 50 width height g" "g1 = skip 250 g"
    using assms(3) sample_blocks_ok [OF w h, of 50 "[]" g] by (simp_all add: sampled_def)
  have nn: "\<forall>blk \<in> set blocks. 0 \<le> snd (snd (snd (snd blk)))"
    unfolding b by (rule sampled_nonneg)
  have row: "row_loop blocks (int y) (range_py width) (replicate (nat (row_size width)) 0)
           (skip (y * nat width) g1) =
         Inr (row_bytes blocks width (int y) (skip (y * nat width) g1), skip (nat width) (skip (y * nat width) g1))"
    by (rule gen_row_ok [OF nn w])
  have "take (nat (row_size width)) (drop (y * nat (row_size width)) (image_bytes width height g)) =
        row_bytes (sampled 50 width height g) width (int y) (skip (250 + y * nat width) g)"
    unfolding image_bytes_def using assms(2)
    by (intro take_drop_concat_uniform) (simp_all add: length_row_bytes [OF w])
  then have "take (nat (row_size width))
                (drop (54 + y * nat (row_size width)) (snd (generate_chip_bg width height g))) =
             row_bytes blocks width (int y) (skip (y * nat width) g1)"
    using gs by (simp add: b length_header_bytes)
  then show ?thesis using row by (simp add: add.commute)
qed

text \<open>The theorem at width 2, height 2 and \<open>y = 1\<close>.\<close>

theorem rows_in_loop_order_witness:
  "fst (generate_chip_bg 2 2 (Rng (const_tape 2) 0)) = None \<and> (1::nat) < nat 2 \<and>
   sample_blocks 50 2 2 [] (Rng (const_tape 2) 0) =
     Inr (replicate 50 (2, 2, 52, 52, 22), Rng (const_tape 2) 250) \<and>
   row_loop (replicate 50 (2, 2, 52, 52, 22)) (int 1) (range_py 2) (replicate (nat (row_size 2)) 0)
      (skip (1 * nat 2) (Rng (const_tape 2) 250)) =
     Inr (take (nat (row_size 2))
            (drop (54 + 1 * nat (row_size 2)) (snd (generate_chip_bg 2 2 (Rng (const_tape 2) 0)))),
          skip (Suc 1 * nat 2) (Rng (const_tape 2) 250))"
proof -
  have fit: "14 + 40 + row_size 2 * 2 < (2::int) ^ 32" by (simp add: row_size_def)
  have s: "fst (generate_chip_bg 2 2 (Rng (const_tape 2) 0)) = None"
    by (simp add: generate_ok [OF _ _ fit])
  have b: "sample_blocks 50 2 2 [] (Rng (const_tape 2) 0) =
     Inr (replicate 50 (2, 2, 52, 52, 22), Rng (const_tape 2) 250)"
    using sample_blocks_ok [of 2 2 50 "[]" "Rng (const_tape 2) 0"]
      sampled_const_tape [of 2 2 50 2 0]
    by (simp add: sampled_def skip_def)
  have y: "(1::nat) < nat 2" by simp
  show ?thesis
    using rows_in_loop_order [OF s y b] s b y by simp
qed

text \<open>
  C3 as stated fails at width 2 and height 2, with a generator that places every block
  outside the image: the row for \<open>y = 1 = height - 1\<close> has a pixel off the grid lines,
  and the first row of the pixel data is not that row but the one for \<open>y = 0\<close>.
\<close>

theorem rows_reversed_counterexample:
  "generate_chip_bg 2 2 (Rng (const_tape 2) 0) =
     (None, header_bytes 2 2 @ [57, 62, 52, 57, 62, 52, 0, 0] @ [57, 62, 52, 27, 32, 22, 0, 0]) \<and>
   sample_blocks 50 2 2 [] (Rng (const_tape 2) 0) =
     Inr (replicate 50 (2, 2, 52, 52, 22), Rng (const_tape 2) 250) \<and>
   row_loop (replicate 50 (2, 2, 52, 52, 22)) 1 (range_py 2) (replicate 8 0)
      (Rng (const_tape 2) 252) =
     Inr ([57, 62, 52, 27, 32, 22, 0, 0], Rng (const_tape 2) 254) \<and>
   take 8 (drop 54 (snd (generate_chip_bg 2 2 (Rng (const_tape 2) 0)))) \<noteq>
     [57, 62, 52, 27, 32, 22, 0, 0]"
proof -
  have fit: "14 + 40 + row_size 2 * 2 < (2::int) ^ 32" by (simp add: row_size_def)
  have sm: "sampled 50 2 2 (Rng (const_tape 2) 0) = replicate 50 (2, 2, 52, 52, 22)"
    using sampled_const_tape [of 2 2 50 2 0] by simp
  have px: "pixel (replicate 50 (2, 2, 52, 52, 22)) n x y =
            (if x mod 128 = 0 \<or> y mod 128 = 0 then (min 255 (50 + n), min 255 (60 + n), min 255 (55 + n))
             else (min 255 (20 + n), min 255 (30 + n), min 255 (25 + n)))"
    if "x < 2" for n x y
    using that by (simp add: pixel_def foldl_add_block_replicate_outside)
  have up: "[0..<2] = [0, 1]" by (simp add: upt_rec)
  have rep: "replicate 2 (0::int) = [0, 0]" by (simp add: numeral_2_eq_2)
  have img: "image_bytes 2 2 (Rng (const_tape 2) 0) =
             [57, 62, 52, 57, 62, 52, 0, 0] @ [57, 62, 52, 27, 32, 22, 0, 0]"
    by (simp add: image_bytes_def row_bytes_def pix_bytes_def sm up px draw_def const_tape_def
        row_size_def rep)
  have g: "generate_chip_bg 2 2 (Rng (const_tape 2) 0) =
     (None, header_bytes 2 2 @ [57, 62, 52, 57, 62, 52, 0, 0] @ [57, 62, 52, 27, 32, 22, 0, 0])"
    using generate_ok [OF _ _ fit, of "Rng (const_tape 2) 0"] by (simp add: img)
  have b: "sample_blocks 50 2 2 [] (Rng (const_tape 2) 0) =
     Inr (replicate 50 (2, 2, 52, 52, 22), Rng (const_tape 2) 250)"
    using sample_blocks_ok [of 2 2 50 "[]" "Rng (const_tape 2) 0"] sm
    by (simp add: sampled_def skip_def)
  have nn: "\<forall>blk \<in> set (replicate 50 (2::int, 2::int, 52::int, 52::int, 22::int)).
              0 \<le> snd (snd (snd (snd blk)))"
    by simp
  have r: "row_loop (replicate 50 (2, 2, 52, 52, 22)) 1 (range_py 2) (replicate 8 0)
      (Rng (const_tape 2) 252) =
     Inr ([57, 62, 52, 27, 32, 22, 0, 0], Rng (const_tape 2) 254)"
    using gen_row_ok [OF nn, of 2 1 "Rng (const_tape 2) 252"]
    by (simp add: row_size_def row_bytes_def pix_bytes_def up px draw_def const_tape_def skip_def rep)
  have d: "take 8 (drop 54 (snd (generate_chip_bg 2 2 (Rng (const_tape 2) 0)))) \<noteq>
     [57, 62, 52, 27, 32, 22, 0, 0]"
    by (simp add: g length_header_bytes)
  show ?thesis using g b r d by blast
qed

lemma add_block_eq:
  "add_block x y (r, g, b) blk = (r + rb_add x y blk, g + g_add x y blk, b + rb_add x y blk)"
  by (cases blk) (simp add: rb_add_def g_add_def covers_def on_boundary_def color_boost_def)

lemma foldl_add_block_sum:
  "foldl (add_block x y) (r, g, b) blocks =
     (r + sum_list (map (rb_add x y) blocks), g + sum_list (map (g_add x y) blocks),
      b + sum_list (map (rb_add x y) blocks))"
  by (induction blocks arbitrary: r g b) (simp_all add: add_block_eq add.assoc)

lemma pixel_sum:
  "pixel blocks n x y =
     (min 255 (20 + n + sum_list (map (rb_add x y) blocks) + grid_boost x y),
      min 255 (30 + n + sum_list (map (g_add x y) blocks) + grid_boost x y),
      min 255 (25 + n + sum_list (map (rb_add x y) blocks) + grid_boost x y))"
  by (simp add: pixel_def foldl_add_block_sum grid_boost_def)

lemma boost_snd: "snd (snd (snd (snd blk))) = color_boost blk"
  by (cases blk) (simp add: color_boost_def)

lemma rb_add_sdiv:
  "0 \<le> color_boost blk \<Longrightarrow> rb_add x y blk = (if covers blk x y then color_boost blk sdiv 2 else 0)"
  by (simp add: rb_add_def signed_divide_int_def sgn_if)

lemma pixel_layers:
  assumes "\<forall>blk \<in> set blocks. 0 \<le> snd (snd (snd (snd blk)))"
  shows "pixel blocks n x y =
           (case layers blocks n x y of (r, g, b) \<Rightarrow> (min 255 r, min 255 g, min 255 b))"
proof -
  have e: "map (rb_add x y) blocks =
        map (\<lambda>blk. if covers blk x y then color_boost blk sdiv 2 else 0) blocks"
    using assms by (intro map_cong refl rb_add_sdiv) (simp add: boost_snd)
  have g: "g_add x y = (\<lambda>blk. if covers blk x y
             then color_boost blk + (if on_boundary blk x y then 40 else 0) else 0)"
    by (rule ext) (simp add: g_add_def)
  show ?thesis
    unfolding pixel_sum e g layers_def by simp
qed

lemma pixel_perm:
  assumes "mset blocks = mset blocks'"
  shows "pixel blocks n x y = pixel blocks' n x y"
proof -
  have "sum_list (map f blocks) = sum_list (map f blocks')" for f :: "block \<Rightarrow> int"
  proof -
    have "sum_list (map f blocks) = sum_mset (image_mset f (mset blocks))"
      by (simp add: sum_mset_sum_list [symmetric] del: sum_mset_sum_list)
    also have "\<dots> = sum_mset (image_mset f (mset blocks'))" by (simp add: assms)
    also have "\<dots> = sum_list (map f blocks')"
      by (simp add: sum_mset_sum_list [symmetric] del: sum_mset_sum_list)
    finally show ?thesis .
  qed
  then show ?thesis by (simp add: pixel_sum)
qed

lemma row_loop_cong:
  assumes "\<And>n x. pixel blocks n x y = pixel blocks' n x y"
  shows "row_loop blocks y xs row g = row_loop blocks' y xs row g"
  by (induction xs arbitrary: row g) (simp_all add: assms split: sum.splits prod.splits)

lemma rows_loop_cong:
  assumes "\<And>n x y. pixel blocks n x y = pixel blocks' n x y"
  shows "rows_loop blocks width ys f g = rows_loop blocks' width ys f g"
proof (induction ys arbitrary: f g)
  case Nil
  then show ?case by simp
next
  case (Cons y ys)
  have "row_loop blocks y xs row g = row_loop blocks' y xs row g" for xs row g
    by (rule row_loop_cong) (rule assms)
  then show ?case by (simp add: Cons.IH split: sum.splits prod.splits)
qed

lemma pixel_blue_red:
  "fst (pixel blocks n x y) \<le> snd (snd (pixel blocks n x y)) \<and>
   (snd (snd (pixel blocks n x y)) < 255 \<longrightarrow>
      snd (snd (pixel blocks n x y)) = fst (pixel blocks n x y) + 5)"
  by (simp add: pixel_sum min_def)

lemma emitted_success:
  assumes "fst (generate_chip_bg width height g) = None" "x < nat width" "y < nat height" "c < 3"
  shows "snd (generate_chip_bg width height g) ! (54 + y * nat (row_size width) + 3 * x + c) =
         bgr (pixel (sampled 50 width height g) (draw 0 10 g (250 + y * nat width + x))
                (int x) (int y)) ! c"
proof -
  have w: "0 < width" and h: "0 < height" using assms(2,3) by simp_all
  have fit: "14 + 40 + row_size width * height < 2 ^ 32"
    using generate_success [OF assms(1)] by simp
  show ?thesis by (rule emitted [OF w h fit assms(2-4)])
qed

lemma sample_blocks_Inr:
  assumes "sample_blocks k width height [] g = Inr (blocks, g1)"
  shows "blocks = sampled k width height g"
proof (cases k)
  case 0
  then show ?thesis using assms by (simp add: sampled_def)
next
  case (Suc j)
  have "\<not> (width < 0 \<or> height < 0)"
    using assms sample_blocks_neg [of width height j "[]" g] by (auto simp add: Suc)
  then have "0 \<le> width" "0 \<le> height" by simp_all
  then show ?thesis
    using assms sample_blocks_ok [of width height k "[]" g] by (simp add: sampled_def)
qed

lemma randint_Inr:
  assumes "randint a b g = Inr (n, g')"
  shows "n = draw a b g 0 \<and> a \<le> n \<and> n \<le> b"
proof -
  have ab: "a \<le> b" using assms by (simp add: randint_def split: if_splits)
  then show ?thesis using assms randint_ok [OF ab, of g] draw_range [OF ab, of g 0] by simp
qed

text \<open>
  C1. In every call that ends without an exception, for every pixel \<open>(x, y)\<close> of the
  image, with \<open>blocks\<close> the list that the sampling loop returned and \<open>n\<close> the noise
  value that \<^verbatim>\<open>randint(0, 10)\<close> returned for this pixel: \<open>n\<close> lies in \<open>[0, 10]\<close>,
  and the blue, green and red bytes of the pixel in the file are the clamp to at most 255
  of the sums of the layers: the base \<open>(20, 30, 25)\<close> for red, green and blue, plus
  \<open>n\<close> on all three channels, plus, for every block whose half-open rectangle contains
  \<open>(x, y)\<close>, half of its boost (truncating division) on red and blue and its whole boost
  on green, with a further 40 on green when \<open>(x, y)\<close> is on the boundary of the block,
  plus 30 on all three channels when \<open>x mod 128 = 0\<close> or \<open>y mod 128 = 0\<close>.
\<close>

theorem emitted_pixel_layers:
  assumes "fst (generate_chip_bg width height g) = None" "x < nat width" "y < nat height"
    and "sample_blocks 50 width height [] g = Inr (blocks, g1)"
    and "randint 0 10 (skip (y * nat width + x) g1) = Inr (n, g2)"
  shows "0 \<le> n \<and> n \<le> 10 \<and>
         (case layers blocks n (int x) (int y) of (r, gr, b) \<Rightarrow>
            pixel blocks n (int x) (int y) = (min 255 r, min 255 gr, min 255 b) \<and>
            snd (generate_chip_bg width height g) ! (54 + y * nat (row_size width) + 3 * x) =
              min 255 b \<and>
            snd (generate_chip_bg width height g) ! (54 + y * nat (row_size width) + 3 * x + 1) =
              min 255 gr \<and>
            snd (generate_chip_bg width height g) ! (54 + y * nat (row_size width) + 3 * x + 2) =
              min 255 r)"
proof -
  note gs = generate_success [OF assms(1)]
  have w: "0 \<le> width" and h: "0 \<le> height" using gs by simp_all
  have b: "blocks = sampled 50 width height g"
    by (rule sample_blocks_Inr [OF assms(4)])
  have g1: "g1 = skip 250 g"
    using assms(4) sample_blocks_ok [OF w h, of 50 "[]" g] by simp
  have n: "n = draw 0 10 g (250 + y * nat width + x)" "0 \<le> n" "n \<le> 10"
    using randint_Inr [OF assms(5)] by (simp_all add: g1 add.assoc)
  have nn: "\<forall>blk \<in> set blocks. 0 \<le> snd (snd (snd (snd blk)))"
    unfolding b by (rule sampled_nonneg)
  obtain r gr bl where l: "layers blocks n (int x) (int y) = (r, gr, bl)"
    by (cases "layers blocks n (int x) (int y)") auto
  have px: "pixel blocks n (int x) (int y) = (min 255 r, min 255 gr, min 255 bl)"
    using pixel_layers [OF nn, of n "int x" "int y"] by (simp add: l)
  have e: "snd (generate_chip_bg width height g) ! (54 + y * nat (row_size width) + 3 * x + c) =
           bgr (pixel blocks n (int x) (int y)) ! c" if "c < 3" for c
    using emitted_success [OF assms(1-3) that] by (simp add: b n(1))
  have e0: "snd (generate_chip_bg width height g) ! (54 + y * nat (row_size width) + 3 * x) = min 255 bl"
    using e [of 0] by (simp add: px)
  have e1: "snd (generate_chip_bg width height g) ! (54 + y * nat (row_size width) + 3 * x + 1) = min 255 gr"
    using e [of 1] by (simp add: px)
  have e2: "snd (generate_chip_bg width height g) ! (54 + y * nat (row_size width) + 3 * x + 2) = min 255 r"
    using e [of 2] by (simp add: px)
  show ?thesis using n(2,3) px e0 e1 e2 by (simp add: l)
qed

lemma generate_2x2:
  "generate_chip_bg 2 2 (Rng (const_tape 2) 0) =
     (None, header_bytes 2 2 @ [57, 62, 52, 57, 62, 52, 0, 0, 57, 62, 52, 27, 32, 22, 0, 0])"
proof -
  have fit: "14 + 40 + row_size 2 * 2 < (2::int) ^ 32" by (simp add: row_size_def)
  have sm: "sampled 50 2 2 (Rng (const_tape 2) 0) = replicate 50 (2, 2, 52, 52, 22)"
    using sampled_const_tape [of 2 2 50 2 0] by simp
  have px: "pixel (replicate 50 (2, 2, 52, 52, 22)) n x y =
            (if x mod 128 = 0 \<or> y mod 128 = 0 then (min 255 (50 + n), min 255 (60 + n), min 255 (55 + n))
             else (min 255 (20 + n), min 255 (30 + n), min 255 (25 + n)))"
    if "x < 2" for n x y
    using that by (simp add: pixel_def foldl_add_block_replicate_outside)
  have up: "[0..<2] = [0, 1]" by (simp add: upt_rec)
  have rep: "replicate 2 (0::int) = [0, 0]" by (simp add: numeral_2_eq_2)
  have img: "image_bytes 2 2 (Rng (const_tape 2) 0) =
             [57, 62, 52, 57, 62, 52, 0, 0, 57, 62, 52, 27, 32, 22, 0, 0]"
    by (simp add: image_bytes_def row_bytes_def pix_bytes_def sm up px draw_def const_tape_def
        row_size_def rep)
  show ?thesis
    using generate_ok [OF _ _ fit, of "Rng (const_tape 2) 0"] by (simp add: img)
qed

lemma sample_blocks_2x2:
  "sample_blocks 50 2 2 [] (Rng (const_tape 2) 0) =
     Inr (replicate 50 (2, 2, 52, 52, 22), Rng (const_tape 2) 250)"
  using sample_blocks_ok [of 2 2 50 "[]" "Rng (const_tape 2) 0"]
    sampled_const_tape [of 2 2 50 2 0]
  by (simp add: sampled_def skip_def)

text \<open>The theorem at width 2, height 2 and the pixel \<open>(1, 1)\<close>.\<close>

theorem emitted_pixel_layers_witness:
  "fst (generate_chip_bg 2 2 (Rng (const_tape 2) 0)) = None \<and> (1::nat) < nat 2 \<and>
   sample_blocks 50 2 2 [] (Rng (const_tape 2) 0) =
     Inr (replicate 50 (2, 2, 52, 52, 22), Rng (const_tape 2) 250) \<and>
   randint 0 10 (skip (1 * nat 2 + 1) (Rng (const_tape 2) 250)) = Inr (2, Rng (const_tape 2) 254) \<and>
   (case layers (replicate 50 (2, 2, 52, 52, 22)) 2 (int 1) (int 1) of (r, gr, b) \<Rightarrow>
      pixel (replicate 50 (2, 2, 52, 52, 22)) 2 (int 1) (int 1) = (min 255 r, min 255 gr, min 255 b) \<and>
      snd (generate_chip_bg 2 2 (Rng (const_tape 2) 0)) ! (54 + 1 * nat (row_size 2) + 3 * 1) = min 255 b \<and>
      snd (generate_chip_bg 2 2 (Rng (const_tape 2) 0)) ! (54 + 1 * nat (row_size 2) + 3 * 1 + 1) = min 255 gr \<and>
      snd (generate_chip_bg 2 2 (Rng (const_tape 2) 0)) ! (54 + 1 * nat (row_size 2) + 3 * 1 + 2) = min 255 r)"
proof -
  have s: "fst (generate_chip_bg 2 2 (Rng (const_tape 2) 0)) = None"
    by (simp add: generate_2x2)
  have i: "(1::nat) < nat 2" by simp
  have r: "randint 0 10 (skip (1 * nat 2 + 1) (Rng (const_tape 2) 250)) = Inr (2, Rng (const_tape 2) 254)"
    by (simp add: randint_def skip_def const_tape_def)
  show ?thesis
    using emitted_pixel_layers [OF s i i sample_blocks_2x2 r] s i sample_blocks_2x2 r by simp
qed

text \<open>
  C7. For every number of sampled blocks, every state of the random generator the blocks
  are drawn from and every noise value that \<^verbatim>\<open>randint(0, 10)\<close> returns, the red,
  green and blue values that the pixel computation stores into the row buffer lie in
  \<open>[0, 255]\<close>, at every position \<open>(x, y)\<close>.
\<close>

theorem channels_in_byte_range:
  assumes "sample_blocks k width height [] g = Inr (blocks, g1)"
    and "randint 0 10 g2 = Inr (n, g3)"
  shows "case pixel blocks n x y of (r, gr, b) \<Rightarrow>
           0 \<le> r \<and> r \<le> 255 \<and> 0 \<le> gr \<and> gr \<le> 255 \<and> 0 \<le> b \<and> b \<le> 255"
proof -
  have nn: "\<forall>blk \<in> set blocks. 0 \<le> snd (snd (snd (snd blk)))"
    unfolding sample_blocks_Inr [OF assms(1)] by (rule sampled_nonneg)
  have n: "0 \<le> n" using randint_Inr [OF assms(2)] by simp
  show ?thesis
    using pixel_lower [OF nn n, of x y] pixel_upper [of blocks n x y]
    by (simp add: split_def)
qed

text \<open>The theorem for three blocks that all cover the pixel \<open>(1, 1)\<close>.\<close>

theorem channels_in_byte_range_witness:
  "sample_blocks 3 2 2 [] (Rng (const_tape 0) 0) =
     Inr (replicate 3 (0, 0, 50, 50, 20), Rng (const_tape 0) 15) \<and>
   randint 0 10 (Rng (const_tape 0) 15) = Inr (0, Rng (const_tape 0) 16) \<and>
   (case pixel (replicate 3 (0, 0, 50, 50, 20)) 0 1 1 of (r, gr, b) \<Rightarrow>
           0 \<le> r \<and> r \<le> 255 \<and> 0 \<le> gr \<and> gr \<le> 255 \<and> 0 \<le> b \<and> b \<le> 255)"
proof -
  have b: "sample_blocks 3 2 2 [] (Rng (const_tape 0) 0) =
     Inr (replicate 3 (0, 0, 50, 50, 20), Rng (const_tape 0) 15)"
    using sample_blocks_ok [of 2 2 3 "[]" "Rng (const_tape 0) 0"]
      sampled_const_tape [of 2 2 3 0 0]
    by (simp add: sampled_def skip_def)
  have r: "randint 0 10 (Rng (const_tape 0) 15) = Inr (0, Rng (const_tape 0) 16)"
    by (simp add: randint_def const_tape_def)
  show ?thesis
    using channels_in_byte_range [OF b r, of 1 1] b r by simp
qed

text \<open>
  C9. The channels of a pixel are the clamp of the base colour, the noise and the grid
  boost plus the sum, over the whole list of blocks, of what each block adds: half of its
  boost to red and to blue and its boost, with 40 more on its boundary, to green, when
  its rectangle contains the pixel. Every block of the list adds its share, however many
  of them overlap and whether or not they are equal. Permuting the list therefore changes
  neither the channels of any pixel, nor any row that the pixel loop builds, nor what
  the loop over the rows writes.
\<close>

theorem block_order_irrelevant:
  assumes "mset blocks = mset blocks'"
  shows "pixel blocks n x y =
           (min 255 (20 + n + (\<Sum>blk\<leftarrow>blocks. rb_add x y blk) + grid_boost x y),
            min 255 (30 + n + (\<Sum>blk\<leftarrow>blocks. g_add x y blk) + grid_boost x y),
            min 255 (25 + n + (\<Sum>blk\<leftarrow>blocks. rb_add x y blk) + grid_boost x y)) \<and>
         pixel blocks n x y = pixel blocks' n x y \<and>
         row_loop blocks y xs row g = row_loop blocks' y xs row g \<and>
         rows_loop blocks width ys f g = rows_loop blocks' width ys f g"
proof -
  have p: "pixel blocks n x y = pixel blocks' n x y" for n x y
    by (rule pixel_perm [OF assms])
  have s: "pixel blocks n x y =
           (min 255 (20 + n + (\<Sum>blk\<leftarrow>blocks. rb_add x y blk) + grid_boost x y),
            min 255 (30 + n + (\<Sum>blk\<leftarrow>blocks. g_add x y blk) + grid_boost x y),
            min 255 (25 + n + (\<Sum>blk\<leftarrow>blocks. rb_add x y blk) + grid_boost x y))"
    by (rule pixel_sum)
  have r: "row_loop blocks y xs row g = row_loop blocks' y xs row g"
    by (rule row_loop_cong) (rule p)
  have rs: "rows_loop blocks width ys f g = rows_loop blocks' width ys f g"
    by (rule rows_loop_cong) (rule p)
  show ?thesis
    using s p [of n x y] r rs by blast
qed

text \<open>
  The theorem for two overlapping blocks in both orders, at a pixel inside both and on
  the boundary of the second, and for three equal blocks, each of which adds its share.
\<close>

theorem block_order_irrelevant_witness:
  "mset [(0, 0, 50, 50, 20), (1, 1, 60, 60, 31)] = mset [(1, 1, 60, 60, 31), (0, 0, 50, 50, 20 :: int)] \<and>
   pixel [(0, 0, 50, 50, 20), (1, 1, 60, 60, 31)] 3 1 1 =
   pixel [(1, 1, 60, 60, 31), (0, 0, 50, 50, 20)] 3 1 1 \<and>
   pixel [(0, 0, 50, 50, 20), (1, 1, 60, 60, 31)] 3 1 1 = (48, 124, 53) \<and>
   pixel [(0, 0, 50, 50, 20), (0, 0, 50, 50, 20), (0, 0, 50, 50, 20)] 0 1 1 = (50, 90, 55)"
proof -
  have m: "mset [(0, 0, 50, 50, 20), (1, 1, 60, 60, 31)] =
           mset [(1, 1, 60, 60, 31), (0::int, 0::int, 50::int, 50::int, 20 :: int)]"
    by simp
  have m3: "mset [(0, 0, 50, 50, 20), (0, 0, 50, 50, 20), (0, 0, 50, 50, 20)] =
            mset [(0, 0, 50, 50, 20), (0, 0, 50, 50, 20), (0::int, 0::int, 50::int, 50::int, 20 :: int)]"
    by simp
  have a: "rb_add 1 1 (0, 0, 50, 50, 20) = 10" "g_add 1 1 (0, 0, 50, 50, 20) = 20"
          "rb_add 1 1 (1, 1, 60, 60, 31) = 15" "g_add 1 1 (1, 1, 60, 60, 31) = 71"
          "grid_boost 1 1 = 0"
    by (simp_all add: rb_add_def g_add_def covers_def on_boundary_def color_boost_def grid_boost_def)
  have v: "pixel [(0, 0, 50, 50, 20), (1, 1, 60, 60, 31)] 3 1 1 = (48, 124, 53)"
    using block_order_irrelevant [OF m, of 3 1 1 "[]" "[]" "Rng (const_tape 0) 0" 0 "[]" "[]"]
    by (simp add: a)
  have v3: "pixel [(0, 0, 50, 50, 20), (0, 0, 50, 50, 20), (0, 0, 50, 50, 20)] 0 1 1 = (50, 90, 55)"
    using block_order_irrelevant [OF m3, of 0 1 1 "[]" "[]" "Rng (const_tape 0) 0" 0 "[]" "[]"]
    by (simp add: a)
  show ?thesis
    using block_order_irrelevant [OF m, of 3 1 1 "[]" "[]" "Rng (const_tape 0) 0" 0 "[]" "[]"] m v v3
    by simp
qed

text \<open>
  C10. In every call that ends without an exception, for every pixel \<open>(x, y)\<close> of the
  image, the blue byte in the file is greater than or equal to the red byte, and is the
  red byte plus 5 whenever the blue byte is below 255.
\<close>

theorem blue_red_difference:
  assumes "fst (generate_chip_bg width height g) = None" "x < nat width" "y < nat height"
  shows "snd (generate_chip_bg width height g) ! (54 + y * nat (row_size width) + 3 * x + 2)
           \<le> snd (generate_chip_bg width height g) ! (54 + y * nat (row_size width) + 3 * x) \<and>
         (snd (generate_chip_bg width height g) ! (54 + y * nat (row_size width) + 3 * x) < 255 \<longrightarrow>
          snd (generate_chip_bg width height g) ! (54 + y * nat (row_size width) + 3 * x) =
          snd (generate_chip_bg width height g) ! (54 + y * nat (row_size width) + 3 * x + 2) + 5)"
proof -
  let ?p = "pixel (sampled 50 width height g) (draw 0 10 g (250 + y * nat width + x)) (int x) (int y)"
  obtain r gr b where px: "?p = (r, gr, b)" by (cases ?p) auto
  have e0: "snd (generate_chip_bg width height g) ! (54 + y * nat (row_size width) + 3 * x) = b"
    using emitted_success [OF assms, of 0] by (simp add: px)
  have e2: "snd (generate_chip_bg width height g) ! (54 + y * nat (row_size width) + 3 * x + 2) = r"
    using emitted_success [OF assms, of 2] by (simp add: px)
  have "r \<le> b \<and> (b < 255 \<longrightarrow> b = r + 5)"
    using pixel_blue_red [of "sampled 50 width height g" "draw 0 10 g (250 + y * nat width + x)" "int x" "int y"]
    by (simp add: px)
  then show ?thesis unfolding e0 e2 .
qed

text \<open>The theorem at width 2, height 2 and the pixel \<open>(1, 1)\<close>: blue 27, red 22.\<close>

theorem blue_red_difference_witness:
  "fst (generate_chip_bg 2 2 (Rng (const_tape 2) 0)) = None \<and> (1::nat) < nat 2 \<and>
   snd (generate_chip_bg 2 2 (Rng (const_tape 2) 0)) ! (54 + 1 * nat (row_size 2) + 3 * 1) < 255 \<and>
   snd (generate_chip_bg 2 2 (Rng (const_tape 2) 0)) ! (54 + 1 * nat (row_size 2) + 3 * 1) = 27 \<and>
   snd (generate_chip_bg 2 2 (Rng (const_tape 2) 0)) ! (54 + 1 * nat (row_size 2) + 3 * 1 + 2) = 22 \<and>
   snd (generate_chip_bg 2 2 (Rng (const_tape 2) 0)) ! (54 + 1 * nat (row_size 2) + 3 * 1) =
   snd (generate_chip_bg 2 2 (Rng (const_tape 2) 0)) ! (54 + 1 * nat (row_size 2) + 3 * 1 + 2) + 5"
proof -
  have s: "fst (generate_chip_bg 2 2 (Rng (const_tape 2) 0)) = None"
    by (simp add: generate_2x2)
  have i: "(1::nat) < nat 2" by simp
  have b: "snd (generate_chip_bg 2 2 (Rng (const_tape 2) 0)) ! (54 + 1 * nat (row_size 2) + 3 * 1) = 27"
    by (simp add: generate_2x2 row_size_def nth_append length_header_bytes)
  show ?thesis
    using blue_red_difference [OF s i i] s i b by simp
qed









text \<open>
  C4. The sampling loop draws 50 blocks, once, before the pixel loops, with the extents
  from \<^verbatim>\<open>randint(50, 200)\<close> and the boost from \<^verbatim>\<open>randint(20, 60)\<close>. The origin
  comes from \<^verbatim>\<open>randint(0, width)\<close> and \<^verbatim>\<open>randint(0, height)\<close>, whose upper ends
  are inclusive, so it is not always in \<open>[0, width) \<times> [0, height)\<close>: at width 1 and
  height 1, a generator whose cells all hold 1 gives 50 blocks with the origin
  \<open>(1, 1)\<close>, outside the image.
\<close>

theorem block_origin_at_width:
  "randint 0 1 (Rng (const_tape 1) 0) = Inr (1, Rng (const_tape 1) 1) \<and>
   sample_block 1 1 (Rng (const_tape 1) 0) = Inr ((1, 1, 51, 51, 21), Rng (const_tape 1) 5) \<and>
   sample_blocks 50 1 1 [] (Rng (const_tape 1) 0) =
     Inr (replicate 50 (1, 1, 51, 51, 21), Rng (const_tape 1) 250)"
proof -
  have a: "randint 0 1 (Rng (const_tape 1) 0) = Inr (1, Rng (const_tape 1) 1)"
    by (simp add: randint_def const_tape_def)
  have b: "sample_block 1 1 (Rng (const_tape 1) 0) = Inr ((1, 1, 51, 51, 21), Rng (const_tape 1) 5)"
    by (simp add: sample_block_def randint_def const_tape_def)
  have c: "sample_blocks 50 1 1 [] (Rng (const_tape 1) 0) =
     Inr (replicate 50 (1, 1, 51, 51, 21), Rng (const_tape 1) 250)"
    using sample_blocks_ok [of 1 1 50 "[]" "Rng (const_tape 1) 0"]
      sampled_const_tape [of 1 1 50 1 0]
    by (simp add: sampled_def skip_def)
  show ?thesis using a b c by blast
qed

end
